theory Spec2Isabelle
  imports Complex_Main "HOL-Library.Word"
begin

section \<open>JavaScript numbers\<close>

text \<open>
  Every \<^verbatim>\<open>number\<close> of the component is an IEEE 754 binary64 value. A finite double is
  a rational, so numbers are modelled as \<^typ>\<open>rat\<close>, and each arithmetic operation
  rounds its exact result to the nearest double, ties to even (\<open>fl\<close>). The exponent
  range is left unbounded: NaN, the infinities, negative zero and subnormals are not
  modelled (the only division whose divisor may be zero is guarded in the source).
  Comparisons of doubles are exact, as are \<^verbatim>\<open>Math.max\<close>, \<^verbatim>\<open>Math.min\<close> and
  \<^verbatim>\<open>Math.abs\<close>, which are the \<open>max\<close>, \<open>min\<close> and \<open>abs\<close> of HOL.
  Array lengths and indices are natural numbers.
\<close>

text \<open>Number of binary digits of a natural number.\<close>

fun bits :: "nat \<Rightarrow> nat" where
  "bits n = (if n = 0 then 0 else Suc (bits (n div 2)))"

declare bits.simps [simp del]

text \<open>The binary exponent \<open>e\<close> of a positive rational: \<open>2^e \<le> q < 2^(e+1)\<close>.\<close>

definition ilog2 :: "rat \<Rightarrow> int" where
  "ilog2 q = (if 1 \<le> q then int (bits (nat \<lfloor>q\<rfloor>)) - 1
              else - int (bits (nat (\<lceil>1 / q\<rceil> - 1))))"

definition round_even :: "rat \<Rightarrow> int" where
  "round_even x = (let f = \<lfloor>x\<rfloor>; d = x - of_int f in
     if d < 1/2 then f else if 1/2 < d then f + 1 else if even f then f else f + 1)"

text \<open>Rounding to 53 significant bits, the precision of binary64.\<close>

definition fl :: "rat \<Rightarrow> rat" where
  "fl q = (if q = 0 then 0 else
     let u = 2 powi (ilog2 \<bar>q\<bar> - 52) in of_int (round_even (q / u)) * u)"

definition fadd :: "rat \<Rightarrow> rat \<Rightarrow> rat" where
  "fadd x y = fl (x + y)"

definition fsub :: "rat \<Rightarrow> rat \<Rightarrow> rat" where
  "fsub x y = fl (x - y)"

definition fmul :: "rat \<Rightarrow> rat \<Rightarrow> rat" where
  "fmul x y = fl (x * y)"

definition fdiv :: "rat \<Rightarrow> rat \<Rightarrow> rat" where
  "fdiv x y = fl (x / y)"

text \<open>\<^verbatim>\<open>Math.round\<close>: the nearest integer, a tie going up.\<close>

definition Math_round :: "rat \<Rightarrow> int" where
  "Math_round x = \<lfloor>x + 1/2\<rfloor>"

section \<open>Data model\<close>

text \<open>
  Modelled from the spec: the types \<^verbatim>\<open>CellState\<close> and \<^verbatim>\<open>Keyframe\<close> of
  \<^verbatim>\<open>../types\<close>, which the component imports. A cell has integer colour components
  and an active flag; a keyframe has a numeric id, a name, a time in minutes and a
  grid of cells. The field \<^verbatim>\<open>id\<close> is \<open>id_kf\<close> here.
\<close>

record CellState =
  r :: int
  g :: int
  b :: int
  active :: bool

record Keyframe =
  id_kf :: rat
  name :: string
  time :: rat
  grid :: "CellState list"

text \<open>Modelled from the spec: the constant \<^verbatim>\<open>CYCLE_DURATION\<close> of \<^verbatim>\<open>../constants\<close>,
  the 1440 minutes of one cycle.\<close>

definition CYCLE_DURATION :: rat where
  "CYCLE_DURATION = 1440"

text \<open>The literal \<^verbatim>\<open>{ r: 0, g: 0, b: 0, active: false }\<close>.\<close>

definition inactiveBlack :: CellState where
  "inactiveBlack = \<lparr>r = 0, g = 0, b = 0, active = False\<rparr>"

text \<open>\<^verbatim>\<open>grid[index] || { r: 0, g: 0, b: 0, active: false }\<close>: a read past the end of
  the array is \<^verbatim>\<open>undefined\<close>, which the source replaces by the literal.\<close>

definition cellOr :: "CellState list \<Rightarrow> nat \<Rightarrow> CellState" where
  "cellOr cells index = (if index < length cells then cells ! index else inactiveBlack)"

text \<open>\<^verbatim>\<open>keyframesByDay[day] || []\<close>.\<close>

definition dayOr :: "Keyframe list list \<Rightarrow> nat \<Rightarrow> Keyframe list" where
  "dayOr days day = (if day < length days then days ! day else [])"

text \<open>
  \<^verbatim>\<open>newDays[selectedDay] = newKeyframes\<close> on a copy of the array of days. Past the
  end, JavaScript extends the array and leaves holes; every read of a day in the
  functions below goes through \<open>dayOr\<close>, which reads a hole as the empty list, so
  holes are written as empty days.
\<close>

definition setDay :: "Keyframe list list \<Rightarrow> nat \<Rightarrow> Keyframe list \<Rightarrow> Keyframe list list" where
  "setDay days i v =
     (if i < length days then days[i := v]
      else days @ replicate (i - length days) [] @ [v])"

text \<open>The part of the component's state that the keyframe store reads and writes.\<close>

record AppState =
  gridSize :: nat
  keyframesByDay :: "Keyframe list list"
  selectedDay :: nat
  selectedKeyframe :: int
  totalDays :: int
  absoluteTime :: rat

section \<open>Timeline sampler\<close>

text \<open>
  The scan of \<^verbatim>\<open>updateGridFromTimeline\<close> over the sorted keyframes: \<open>first\<close> is
  \<^verbatim>\<open>sortedKeyframes[0]\<close>, the list is the part from index \<open>i\<close> on, and the result is
  the pair chosen before \<^verbatim>\<open>break\<close>, if any.
\<close>

fun findBracket :: "Keyframe \<Rightarrow> Keyframe list \<Rightarrow> rat \<Rightarrow> (Keyframe \<times> Keyframe) option" where
  "findBracket first [] t = None"
| "findBracket first (current # rest) t =
     (let next = (case rest of [] \<Rightarrow> first | n # _ \<Rightarrow> n) in
      if time current \<le> t \<and> (t < time next \<or> time next \<le> time current)
      then Some (current, next)
      else findBracket first rest t)"

text \<open>The pair \<^verbatim>\<open>(prevKeyframe, nextKeyframe)\<close> after the scan; before it, the pair
  is (last, first).\<close>

definition selectBracket :: "Keyframe list \<Rightarrow> rat \<Rightarrow> Keyframe \<times> Keyframe" where
  "selectBracket sortedKeyframes t =
     (case findBracket (hd sortedKeyframes) sortedKeyframes t of
        Some p \<Rightarrow> p
      | None \<Rightarrow> (last sortedKeyframes, hd sortedKeyframes))"

definition timeDiff :: "Keyframe \<Rightarrow> Keyframe \<Rightarrow> rat" where
  "timeDiff prevKeyframe nextKeyframe =
     (let d = fsub (time nextKeyframe) (time prevKeyframe) in
      if d < 0 then fadd d CYCLE_DURATION else d)"

definition timeProgress :: "Keyframe \<Rightarrow> rat \<Rightarrow> rat" where
  "timeProgress prevKeyframe t =
     (let p = fsub t (time prevKeyframe) in
      if p < 0 then fadd p CYCLE_DURATION else p)"

definition factorOf :: "Keyframe \<Rightarrow> Keyframe \<Rightarrow> rat \<Rightarrow> rat" where
  "factorOf prevKeyframe nextKeyframe t =
     (if timeDiff prevKeyframe nextKeyframe = 0 then 0
      else fdiv (timeProgress prevKeyframe t) (timeDiff prevKeyframe nextKeyframe))"

definition lerp :: "int \<Rightarrow> int \<Rightarrow> rat \<Rightarrow> int" where
  "lerp c1 c2 factor =
     Math_round (fadd (of_int c1) (fmul (fsub (of_int c2) (of_int c1)) factor))"

text \<open>\<^verbatim>\<open>interpolateColor\<close>; \<open>None\<close> is a falsy (missing) cell.\<close>

fun interpolateColor :: "CellState option \<Rightarrow> CellState option \<Rightarrow> rat \<Rightarrow> CellState" where
  "interpolateColor (Some color1) (Some color2) factor =
     \<lparr>r = lerp (r color1) (r color2) factor,
      g = lerp (g color1) (g color2) factor,
      b = lerp (b color1) (b color2) factor,
      active = (if factor < 1/2 then active color1 else active color2)\<rparr>"
| "interpolateColor (Some color1) None factor = color1"
| "interpolateColor None (Some color2) factor = color2"
| "interpolateColor None None factor = inactiveBlack"

text \<open>\<^verbatim>\<open>updateGridFromTimeline(time, day)\<close>; the result is the grid passed to
  \<^verbatim>\<open>setCurrentGrid\<close>.\<close>

definition updateGridFromTimeline ::
    "nat \<Rightarrow> Keyframe list list \<Rightarrow> rat \<Rightarrow> nat \<Rightarrow> CellState list" where
  "updateGridFromTimeline gs days t day =
     (let dayKeyframes = dayOr days day in
      if dayKeyframes = [] then replicate (gs * gs) inactiveBlack
      else
        let sortedKeyframes = sort_key time dayKeyframes;
            (prevKeyframe, nextKeyframe) = selectBracket sortedKeyframes t;
            factor = factorOf prevKeyframe nextKeyframe t
        in map (\<lambda>index. interpolateColor (Some (cellOr (grid prevKeyframe) index))
                            (Some (cellOr (grid nextKeyframe) index)) factor)
               [0..<gs * gs])"

section \<open>Keyframe store\<close>

definition deleteKeyframe :: "AppState \<Rightarrow> rat \<Rightarrow> AppState" where
  "deleteKeyframe s idToDelete =
     (let currentDayKeyframes = dayOr (keyframesByDay s) (selectedDay s) in
      if 1 < length currentDayKeyframes then
        let newKeyframes = filter (\<lambda>kf. id_kf kf \<noteq> idToDelete) currentDayKeyframes in
        s\<lparr>keyframesByDay := setDay (keyframesByDay s) (selectedDay s) newKeyframes,
          selectedKeyframe :=
            (if int (length newKeyframes) \<le> selectedKeyframe s
             then int (length newKeyframes) - 1 else selectedKeyframe s)\<rparr>
      else s)"

definition updateKeyframeTime :: "AppState \<Rightarrow> rat \<Rightarrow> rat \<Rightarrow> AppState" where
  "updateKeyframeTime s kid newTime =
     (let currentDayKeyframes = dayOr (keyframesByDay s) (selectedDay s);
          newKeyframes = map (\<lambda>kf. if id_kf kf = kid
                 then kf\<lparr>time := max 0 (min newTime (fsub CYCLE_DURATION 1))\<rparr> else kf)
               currentDayKeyframes
      in s\<lparr>keyframesByDay :=
             setDay (keyframesByDay s) (selectedDay s) (sort_key time newKeyframes)\<rparr>)"

definition updateKeyframeName :: "AppState \<Rightarrow> rat \<Rightarrow> string \<Rightarrow> AppState" where
  "updateKeyframeName s kid newName =
     (let currentDayKeyframes = dayOr (keyframesByDay s) (selectedDay s);
          newKeyframes = map (\<lambda>kf. if id_kf kf = kid then kf\<lparr>name := newName\<rparr> else kf)
               currentDayKeyframes
      in s\<lparr>keyframesByDay := setDay (keyframesByDay s) (selectedDay s) newKeyframes\<rparr>)"

section \<open>Device frame encoder\<close>

type_synonym byte = "8 word"

text \<open>\<^verbatim>\<open>buffer[i] = v\<close> on a \<^verbatim>\<open>Uint8Array\<close>: the value is stored modulo 256, and a
  write past the end of the array is ignored.\<close>

definition writeByte :: "byte list \<Rightarrow> nat \<Rightarrow> int \<Rightarrow> byte list" where
  "writeByte buffer i v = (if i < length buffer then buffer[i := word_of_int v] else buffer)"

text \<open>\<^verbatim>\<open>Math.round((cell.active ? c : 0) * brightness)\<close> with
  \<^verbatim>\<open>brightness = masterBrightness / 100\<close>.\<close>

definition scaled :: "rat \<Rightarrow> bool \<Rightarrow> int \<Rightarrow> int" where
  "scaled masterBrightness act c =
     (let brightness = fdiv masterBrightness 100
      in Math_round (fmul (of_int (if act then c else 0)) brightness))"

text \<open>The loop over the cells: \<open>i\<close> is the write position.\<close>

fun writeCells :: "rat \<Rightarrow> CellState list \<Rightarrow> byte list \<Rightarrow> nat \<Rightarrow> byte list" where
  "writeCells masterBrightness [] buffer i = buffer"
| "writeCells masterBrightness (cell # cells) buffer i =
     writeCells masterBrightness cells
       (writeByte
         (writeByte
           (writeByte buffer i (scaled masterBrightness (active cell) (r cell)))
           (i + 1) (scaled masterBrightness (active cell) (g cell)))
         (i + 2) (scaled masterBrightness (active cell) (b cell)))
       (i + 3)"

text \<open>\<^verbatim>\<open>sendGridToArduino\<close>: the result is the buffer handed to \<^verbatim>\<open>portWriter.write\<close>, or
  \<open>None\<close> when there is no writer and the function returns at once. A new
  \<^verbatim>\<open>Uint8Array\<close> holds zeros.\<close>

definition sendGridToArduino :: "bool \<Rightarrow> nat \<Rightarrow> rat \<Rightarrow> CellState list \<Rightarrow> byte list option" where
  "sendGridToArduino portWriter gs masterBrightness cells =
     (if \<not> portWriter then None
      else
        let buffer0 = replicate (1 + 1 + gs * gs * 3 + 1) 0;
            buffer1 = writeByte buffer0 0 0xAB;
            buffer2 = writeByte buffer1 1 (int gs);
            buffer3 = writeCells masterBrightness cells buffer2 2
        in Some (writeByte buffer3 (length buffer3 - 1) 0xBA))"

text \<open>The three bytes of one cell.\<close>

definition cellBytes :: "rat \<Rightarrow> CellState \<Rightarrow> byte list" where
  "cellBytes mb cell = [word_of_int (scaled mb (active cell) (r cell)),
     word_of_int (scaled mb (active cell) (g cell)),
     word_of_int (scaled mb (active cell) (b cell))]"

section \<open>Grid resize\<close>

text \<open>The effect that runs when \<^verbatim>\<open>gridSize\<close> has changed: every grid of every keyframe of
  every day is rebuilt with \<open>gridSize\<^sup>2\<close> cells.\<close>

definition resizeEffect :: "AppState \<Rightarrow> AppState" where
  "resizeEffect s =
     (let newSize = gridSize s * gridSize s in
      s\<lparr>keyframesByDay :=
          map (\<lambda>dayKeyframes.
                 map (\<lambda>kf. kf\<lparr>grid := map (\<lambda>i. cellOr (grid kf) i) [0..<newSize]\<rparr>) dayKeyframes)
              (keyframesByDay s)\<rparr>)"

text \<open>\<^verbatim>\<open>setGridSize(n)\<close> followed by the effect.\<close>

definition setGridSize :: "nat \<Rightarrow> AppState \<Rightarrow> AppState" where
  "setGridSize n s = resizeEffect (s\<lparr>gridSize := n\<rparr>)"

section \<open>Spectral summary\<close>

record Analysis =
  dominantSpectrum :: string
  avgR :: rat
  avgG :: rat
  avgB :: rat

text \<open>\<^verbatim>\<open>liveAnalysis\<close>: the sums and averages over the active cells and the
  classification; the literal \<^verbatim>\<open>1.3\<close> is the double nearest to 13/10.\<close>

definition liveAnalysis :: "CellState list \<Rightarrow> Analysis" where
  "liveAnalysis currentGrid =
     (let activeCells = filter active currentGrid in
      if length activeCells = 0
      then \<lparr>dominantSpectrum = ''Off'', avgR = 0, avgG = 0, avgB = 0\<rparr>
      else
        let totals = fold (\<lambda>cell (tr, tg, tb).
                       (fadd tr (of_int (r cell)), fadd tg (of_int (g cell)), fadd tb (of_int (b cell))))
                     activeCells (0, 0, 0);
            aR = fdiv (fst totals) (of_nat (length activeCells));
            aG = fdiv (fst (snd totals)) (of_nat (length activeCells));
            aB = fdiv (snd (snd totals)) (of_nat (length activeCells));
            threshold = fl (13 / 10)
        in \<lparr>dominantSpectrum =
              (if fmul aG threshold < aR \<and> fmul aB threshold < aR then ''Red Dominant''
               else if fmul aR threshold < aG \<and> fmul aB threshold < aG then ''Green Dominant''
               else if fmul aR threshold < aB \<and> fmul aG threshold < aB then ''Blue Dominant''
               else if \<bar>fsub aR aG\<bar> < 25 \<and> \<bar>fsub aR aB\<bar> < 25 \<and> 200 < aR
                    then ''Full Spectrum''
               else ''Balanced''),
            avgR = aR, avgG = aG, avgB = aB\<rparr>)"

text \<open>The test of the first three branches: \<open>x\<close> exceeds 1.3 times \<open>y\<close> and 1.3 times
  \<open>z\<close>.\<close>

definition dominates :: "rat \<Rightarrow> rat \<Rightarrow> rat \<Rightarrow> bool" where
  "dominates x y z = (fmul y (fl (13 / 10)) < x \<and> fmul z (fl (13 / 10)) < x)"

section \<open>Schedule length\<close>





subsection \<open>The days as objects in a store\<close>

text \<open>
  Whether the appended days are independent of each other depends on which objects
  they share. Here the arrays and objects are kept in a store: an address is an index
  into the store, a new object gets the next free address, and a day, a keyframe, a
  grid and a cell refer to their parts by address.
\<close>

type_synonym addr = nat

datatype obj =
    CellObj CellState
  | GridObj "addr list"
  | KeyframeObj rat string rat addr
  | DayObj "addr list"

type_synonym store = "obj list"

















text \<open>Two stores that agree on the addresses of an object give it the same value.\<close>

definition agree :: "store \<Rightarrow> store \<Rightarrow> addr list \<Rightarrow> bool" where
  "agree h h' xs = (\<forall>x \<in> set xs. x < length h \<and> x < length h' \<and> h' ! x = h ! x)"


section \<open>Properties of the double arithmetic\<close>

text \<open>The relative error of one rounding is at most \<open>2^-53\<close>.\<close>

lemma bits_bounds: "0 < n \<Longrightarrow> 2 ^ (bits n - 1) \<le> n \<and> n < 2 ^ bits n"
proof (induction n rule: bits.induct)
  case (1 n)
  show ?case
  proof (cases "n div 2 = 0")
    case True
    with 1 have "n = 1" by (simp add: div_eq_0_iff) 
    then show ?thesis by (simp add: bits.simps)
  next
    case False
    then have pos: "0 < n div 2" by simp
    from 1 have n0: "n \<noteq> 0" by simp
    from "1.IH" [OF n0 pos] have lo: "2 ^ (bits (n div 2) - 1) \<le> n div 2"
      and hi: "n div 2 < 2 ^ bits (n div 2)" by simp_all
    have b: "bits n = Suc (bits (n div 2))"
      using n0 by (subst bits.simps) simp
    have bp: "0 < bits (n div 2)"
      using pos by (subst bits.simps) simp
    then have e: "2 ^ bits (n div 2) = 2 * (2::nat) ^ (bits (n div 2) - 1)"
      by (cases "bits (n div 2)") simp_all
    have "2 ^ (bits n - 1) \<le> 2 * (n div 2)"
      using lo by (simp add: b e)
    also have "\<dots> \<le> n" by simp
    finally have l: "2 ^ (bits n - 1) \<le> n" .
    have "n < 2 * (n div 2 + 1)" by presburger
    also have "\<dots> \<le> 2 * 2 ^ bits (n div 2)" using hi by simp
    finally have "n < 2 ^ bits n" by (simp add: b)
    with l show ?thesis by simp
  qed
qed

lemma round_even_err: "\<bar>of_int (round_even x) - x\<bar> \<le> 1/2"
proof -
  have "of_int \<lfloor>x\<rfloor> \<le> x" "x < of_int \<lfloor>x\<rfloor> + 1" by linarith+
  then show ?thesis
    by (auto simp add: round_even_def Let_def abs_le_iff)
qed

lemma ilog2_lower: assumes "0 < q" shows "2 powi (ilog2 q) \<le> q"
proof (cases "1 \<le> q")
  case True
  define n where "n = nat \<lfloor>q\<rfloor>"
  have n: "0 < n" "of_nat n \<le> q"
    using True by (simp_all add: n_def)
  have "0 < bits n" using n by (subst bits.simps) simp
  then have "2 powi (int (bits n) - 1) = (2::rat) ^ (bits n - 1)"
    by (simp add: power_int_def nat_diff_distrib' of_nat_diff)
  also have "\<dots> = of_nat (2 ^ (bits n - 1))" by simp
  also have "\<dots> \<le> of_nat n"
    using bits_bounds [OF n(1)] by (metis of_nat_le_iff)
  finally have "2 powi (int (bits n) - 1) \<le> (of_nat n :: rat)" .
  with n(2) have "2 powi (int (bits n) - 1) \<le> q" by linarith
  then show ?thesis using True by (simp add: ilog2_def n_def)
next
  case False
  define cq where "cq = \<lceil>1 / q\<rceil>"
  define m where "m = nat (cq - 1)"
  have q1: "1 < 1 / q" using False assms by (simp add: field_simps)
  then have "1 < cq" unfolding cq_def by (simp only: less_ceiling_iff of_int_1)
  then have m: "0 < m" "int m = cq - 1"
    by (simp_all add: m_def)
  have "m < 2 ^ bits m" using bits_bounds [OF m(1)] by simp
  then have "int m < 2 ^ bits m" by (metis of_nat_less_iff of_nat_numeral of_nat_power)
  then have "cq \<le> 2 ^ bits m" using m by simp
  then have "1 / q \<le> 2 ^ bits m"
    unfolding cq_def by (metis ceiling_le_iff of_int_numeral of_int_power)
  then have "1 / 2 ^ bits m \<le> q"
    using assms by (simp add: field_simps)
  moreover have "2 powi (- int (bits m)) = 1 / (2::rat) ^ bits m"
    by (simp add: power_int_def field_simps)
  ultimately show ?thesis using False by (simp add: ilog2_def m_def cq_def)
qed

lemma fl_err: "\<bar>fl q - q\<bar> \<le> \<bar>q\<bar> / 2 ^ 53"
proof (cases "q = 0")
  case True
  then show ?thesis by (simp add: fl_def)
next
  case False
  define e where "e = ilog2 \<bar>q\<bar>"
  define u :: rat where "u = 2 powi (e - 52)"
  have u: "0 < u" by (simp add: u_def)
  have "fl q - q = (of_int (round_even (q / u)) - q / u) * u"
    using False u by (simp add: fl_def Let_def u_def e_def field_simps)
  then have "\<bar>fl q - q\<bar> = \<bar>of_int (round_even (q / u)) - q / u\<bar> * u"
    using u by (simp add: abs_mult)
  also have "\<dots> \<le> 1/2 * u"
    using round_even_err [of "q / u"] u by (intro mult_right_mono) simp_all
  also have "\<dots> = 2 powi e / 2 ^ 53"
    by (simp add: u_def power_int_diff)
  also have "\<dots> \<le> \<bar>q\<bar> / 2 ^ 53"
    using ilog2_lower [of "\<bar>q\<bar>"] False by (simp add: e_def divide_right_mono)
  finally show ?thesis .
qed


lemma scaled_err:
  fixes c mb :: int
  assumes c: "0 \<le> c" "c \<le> 255" and mb: "0 \<le> mb" "mb \<le> 100"
  shows "\<bar>fmul (of_int c) (fdiv (of_int mb) 100) - of_int (c * mb) / 100\<bar> \<le> 1 / 1000"
proof -
  define x :: rat where "x = of_int mb / 100"
  define bb where "bb = fl x"
  define y :: rat where "y = of_int c * bb"
  have x: "0 \<le> x" "x \<le> 1" using mb by (simp_all add: x_def)
  have e1: "\<bar>bb - x\<bar> \<le> 1 / 2 ^ 53"
  proof -
    have "\<bar>bb - x\<bar> \<le> \<bar>x\<bar> / 2 ^ 53" unfolding bb_def by (rule fl_err)
    also have "\<dots> \<le> 1 / 2 ^ 53" using x by (simp add: divide_right_mono)
    finally show ?thesis .
  qed
  have cr: "0 \<le> (of_int c :: rat)" "(of_int c :: rat) \<le> 255" using c by simp_all
  have e2: "\<bar>y - of_int c * x\<bar> \<le> 255 / 2 ^ 53"
  proof -
    have "\<bar>y - of_int c * x\<bar> = of_int c * \<bar>bb - x\<bar>"
      using cr by (simp add: y_def abs_mult right_diff_distrib [symmetric])
    also have "\<dots> \<le> 255 * (1 / 2 ^ 53)"
      using cr e1 by (intro mult_mono) simp_all
    finally show ?thesis by simp
  qed
  have xb: "\<bar>of_int c * x\<bar> \<le> 255"
  proof -
    have "of_int c * x \<le> 255 * 1" using cr x by (intro mult_mono) simp_all
    moreover have "0 \<le> of_int c * x" using cr x by simp
    ultimately show ?thesis by simp
  qed
  have small: "255 / 2 ^ 53 \<le> (1::rat)" by simp
  have yb: "\<bar>y\<bar> \<le> 256" using e2 xb small by linarith
  have e3: "\<bar>fl y - y\<bar> \<le> 256 / 2 ^ 53"
  proof -
    have "\<bar>fl y - y\<bar> \<le> \<bar>y\<bar> / 2 ^ 53" by (rule fl_err)
    also have "\<dots> \<le> 256 / 2 ^ 53" using yb by (simp add: divide_right_mono)
    finally show ?thesis .
  qed
  have e4: "\<bar>fl y - of_int c * x\<bar> \<le> 1 / 1000"
  proof -
    have "255 / 2 ^ 53 + 256 / 2 ^ 53 \<le> (1 / 1000 :: rat)" by simp
    with e2 e3 show ?thesis by linarith
  qed
  have "fmul (of_int c) (fdiv (of_int mb) 100) = fl y"
    by (simp add: fmul_def fdiv_def y_def bb_def x_def)
  moreover have "of_int (c * mb) / 100 = of_int c * x"
    by (simp add: x_def)
  ultimately show ?thesis
    using e4 by (simp only:)
qed

lemma floor_half: "\<lfloor>1 / 2 :: rat\<rfloor> = 0"
  by (rule floor_unique) simp_all

text \<open>Integers below \<open>2^53\<close> in absolute value are doubles.\<close>

lemma bits_le: "n < 2 ^ m \<Longrightarrow> bits n \<le> m"
proof (cases "n = 0")
  case True
  then show ?thesis by (simp add: bits.simps)
next
  case False
  assume "n < 2 ^ m"
  moreover from bits_bounds [of n] False have "2 ^ (bits n - 1) \<le> n" by simp
  ultimately have "(2::nat) ^ (bits n - 1) < 2 ^ m" by (rule le_less_trans [rotated])
  then have "bits n - 1 < m" by simp
  then show ?thesis by simp
qed

lemma round_even_of_int: "round_even (of_int k) = k"
  by (simp add: round_even_def)

lemma fl_zero: "fl 0 = 0"
  by (simp add: fl_def)

lemma fl_of_int:
  assumes "\<bar>n\<bar> < 2 ^ 53"
  shows "fl (of_int n) = of_int n"
proof (cases "n = 0")
  case True
  then show ?thesis by (simp add: fl_def)
next
  case False
  define m where "m = nat \<bar>n\<bar>"
  have m: "0 < m" "m < 2 ^ 53" "int m = \<bar>n\<bar>"
    using False assms by (simp_all add: m_def nat_less_iff)
  have q1: "(1::rat) \<le> \<bar>of_int n\<bar>"
    using False by (metis of_int_abs of_int_le_iff of_int_1 zero_less_abs_iff int_one_le_iff_zero_less)
  have fl: "nat \<lfloor>\<bar>of_int n :: rat\<bar>\<rfloor> = m"
    by (simp add: m_def flip: of_int_abs)
  define e where "e = int (bits m) - 1"
  have e: "ilog2 \<bar>of_int n\<bar> = e"
    using q1 by (simp add: ilog2_def fl e_def)
  have "bits m \<le> 53" using m(2) by (rule bits_le)
  moreover have "0 < bits m" using m(1) by (subst bits.simps) simp
  ultimately have eb: "0 \<le> e" "e \<le> 52" by (simp_all add: e_def)
  define d where "d = nat (52 - e)"
  have u: "(2::rat) powi (e - 52) = 1 / 2 ^ d"
    using eb by (simp add: power_int_def d_def field_simps)
  have "of_int n / (1 / 2 ^ d) = (of_int (n * 2 ^ d) :: rat)"
    by simp
  then have "round_even (of_int n / (1 / 2 ^ d)) = n * 2 ^ d"
    by (simp only: round_even_of_int)
  then show ?thesis
    using False by (simp add: fl_def e u Let_def)
qed

section \<open>Properties of the keyframe store\<close>

text \<open>
  Claim C7. In a day that holds exactly one keyframe, deleting a keyframe, whatever the
  id and so also the id of that keyframe, changes nothing: the state is the same, the
  day's list is the same and still has one element. Whenever a deletion does change
  the day's list, the list had at least two elements.
\<close>

theorem deleteKeyframe_sole_keyframe:
  "(length (dayOr (keyframesByDay s) (selectedDay s)) = 1 \<longrightarrow>
      deleteKeyframe s kid = s
    \<and> dayOr (keyframesByDay (deleteKeyframe s kid)) (selectedDay s)
        = dayOr (keyframesByDay s) (selectedDay s)
    \<and> length (dayOr (keyframesByDay (deleteKeyframe s kid)) (selectedDay s)) = 1)
   \<and> (dayOr (keyframesByDay (deleteKeyframe s kid)) (selectedDay s)
        \<noteq> dayOr (keyframesByDay s) (selectedDay s)
      \<longrightarrow> 2 \<le> length (dayOr (keyframesByDay s) (selectedDay s)))"
  by (auto simp: deleteKeyframe_def Let_def)

theorem deleteKeyframe_sole_keyframe_witness:
  "deleteKeyframe
     \<lparr>gridSize = 1,
      keyframesByDay = [[\<lparr>id_kf = 7, name = ''Scene 1'', time = 0, grid = [inactiveBlack]\<rparr>]],
      selectedDay = 0, selectedKeyframe = 0, totalDays = 1, absoluteTime = 0\<rparr> 7
   = \<lparr>gridSize = 1,
      keyframesByDay = [[\<lparr>id_kf = 7, name = ''Scene 1'', time = 0, grid = [inactiveBlack]\<rparr>]],
      selectedDay = 0, selectedKeyframe = 0, totalDays = 1, absoluteTime = 0\<rparr>"
  using deleteKeyframe_sole_keyframe
    [of "\<lparr>gridSize = 1,
      keyframesByDay = [[\<lparr>id_kf = 7, name = ''Scene 1'', time = 0, grid = [inactiveBlack]\<rparr>]],
      selectedDay = 0, selectedKeyframe = 0, totalDays = 1, absoluteTime = 0\<rparr>" 7]
  by (simp add: dayOr_def)

section \<open>Properties of the timeline sampler\<close>

text \<open>The double arithmetic of the two-keyframe day of the wraparound and midpoint
  examples: every value is an exact double.\<close>

lemma fl_two_keyframes:
  "fsub 0 720 = -720" "fadd (-720) 1440 = 720" "fsub 1080 720 = 360"
  "fdiv 360 720 = 1/2" "fsub 720 0 = 720" "fsub 360 0 = 360"
  by code_simp+

lemma lerp_half: "lerp 255 0 (1/2) = 128" "lerp 0 255 (1/2) = 128"
  by code_simp+

lemma map_upt_const: "(\<And>i. i < n \<Longrightarrow> f i = c) \<Longrightarrow> map f [0..<n] = replicate n c"
  by (simp add: list_eq_iff_nth_eq)

lemma cellOr_replicate: "i < n \<Longrightarrow> cellOr (replicate n c) i = c"
  by (simp add: cellOr_def)

text \<open>
  Claim C1. A day holds exactly two keyframes, one at time 0 with every cell black and
  inactive and one at time 720 with every cell white and active, and the cycle lasts
  1440 minutes. Sampling at 1080 selects the bracket (keyframe at 720, keyframe at 0),
  the cyclic duration is 720 (the negative difference plus the cycle), the factor is
  0.5, and every cell of the result has
  \<open>r = g = b = round (255 + (0 - 255) * 0.5) = 128\<close>: the interpolation wraps around
  the end of the cycle instead of staying at the last keyframe. The order of the two
  keyframes in the day's list does not matter.
\<close>

theorem sampler_wraparound:
  fixes gs :: nat and i0 i1 :: rat and n0 n1 :: string
  defines "k0 \<equiv> \<lparr>id_kf = i0, name = n0, time = 0, grid = replicate (gs * gs) inactiveBlack\<rparr>"
      and "k1 \<equiv> \<lparr>id_kf = i1, name = n1, time = 720,
                  grid = replicate (gs * gs) \<lparr>r = 255, g = 255, b = 255, active = True\<rparr>\<rparr>"
  shows "CYCLE_DURATION = 1440
    \<and> selectBracket (sort_key time [k0, k1]) 1080 = (k1, k0)
    \<and> selectBracket (sort_key time [k1, k0]) 1080 = (k1, k0)
    \<and> fsub (time k0) (time k1) = - 720
    \<and> timeDiff k1 k0 = 720
    \<and> factorOf k1 k0 1080 = 1/2
    \<and> Math_round (255 + (0 - 255) * (1/2)) = 128
    \<and> updateGridFromTimeline gs [[k0, k1]] 1080 0
        = replicate (gs * gs) \<lparr>r = 128, g = 128, b = 128, active = False\<rparr>
    \<and> updateGridFromTimeline gs [[k1, k0]] 1080 0
        = replicate (gs * gs) \<lparr>r = 128, g = 128, b = 128, active = False\<rparr>"
proof (intro conjI)
  show "CYCLE_DURATION = 1440"
    by (simp add: CYCLE_DURATION_def)
  show b: "selectBracket (sort_key time [k0, k1]) 1080 = (k1, k0)"
    by (simp add: k0_def k1_def selectBracket_def)
  show b': "selectBracket (sort_key time [k1, k0]) 1080 = (k1, k0)"
    by (simp add: k0_def k1_def selectBracket_def)
  show "fsub (time k0) (time k1) = - 720"
    by (simp add: k0_def k1_def fl_two_keyframes)
  show d: "timeDiff k1 k0 = 720"
    by (simp add: k0_def k1_def timeDiff_def fl_two_keyframes CYCLE_DURATION_def)
  show f: "factorOf k1 k0 1080 = 1/2"
    by (simp add: factorOf_def d) (simp add: k0_def k1_def timeProgress_def fl_two_keyframes)
  show "Math_round (255 + (0 - 255) * (1/2)) = 128"
    by (simp add: Math_round_def)
  show "updateGridFromTimeline gs [[k0, k1]] 1080 0
        = replicate (gs * gs) \<lparr>r = 128, g = 128, b = 128, active = False\<rparr>"
    unfolding updateGridFromTimeline_def
    apply (simp add: dayOr_def b f Let_def del: sort_key_simps)
    apply (rule map_upt_const)
    apply (simp add: k0_def k1_def cellOr_replicate inactiveBlack_def lerp_half)
    done
  show "updateGridFromTimeline gs [[k1, k0]] 1080 0
        = replicate (gs * gs) \<lparr>r = 128, g = 128, b = 128, active = False\<rparr>"
    unfolding updateGridFromTimeline_def
    apply (simp add: dayOr_def b' f Let_def del: sort_key_simps)
    apply (rule map_upt_const)
    apply (simp add: k0_def k1_def cellOr_replicate inactiveBlack_def lerp_half)
    done
qed

text \<open>An interpolation with factor 0 returns the first colour.\<close>

lemma lerp_factor_zero:
  assumes "\<bar>c1\<bar> < 2 ^ 53"
  shows "lerp c1 c2 0 = c1"
  using fl_of_int [OF assms]
  by (simp add: lerp_def fadd_def fmul_def fl_zero Math_round_def floor_half)

text \<open>
  Sampling at the time of a keyframe \<open>k\<close> of the day returns the grid of \<open>k\<close>, provided
  that no two keyframes with a time up to the time of \<open>k\<close> have the same time: the scan
  then passes every earlier keyframe and stops at \<open>k\<close> with factor 0.
\<close>

lemma distinct_map_insort_key:
  "distinct (map f (insort_key f x ys)) \<longleftrightarrow> f x \<notin> f ` set ys \<and> distinct (map f ys)"
  by (induction ys) (auto simp: set_insort_key)

lemma distinct_map_sort_key: "distinct (map f (sort_key f xs)) \<longleftrightarrow> distinct (map f xs)"
  by (induction xs) (simp_all add: distinct_map_insort_key)

lemma findBracket_at_keyframe:
  assumes "sorted (map time xs)" and "k \<in> set xs"
      and "distinct (map time (filter (\<lambda>x. time x \<le> time k) xs))"
  shows "\<exists>nx. findBracket first xs (time k) = Some (k, nx)"
  using assms
proof (induction xs)
  case Nil
  then show ?case by simp
next
  case (Cons c rest)
  show ?case
  proof (cases "c = k")
    case True
    then show ?thesis by (auto simp: Let_def not_less)
  next
    case False
    with Cons.prems have kr: "k \<in> set rest" by simp
    then obtain n rest' where rest: "rest = n # rest'" by (cases rest) auto
    from Cons.prems(1) have srt: "\<forall>y \<in> set rest. time c \<le> time y" "sorted (map time rest)"
      by simp_all
    with kr have ck: "time c \<le> time k" by blast
    from srt rest have nk: "time n \<le> time k"
      using kr by auto
    from Cons.prems(3) ck have d: "time c \<notin> time ` set (filter (\<lambda>x. time x \<le> time k) rest)"
      "distinct (map time (filter (\<lambda>x. time x \<le> time k) rest))"
      by simp_all
    from d(1) nk rest have "time c \<noteq> time n" by auto
    moreover from srt rest have "time c \<le> time n" by simp
    ultimately have cn: "time c < time n" by simp
    from Cons.IH [OF srt(2) kr d(2)] obtain nx where "findBracket first rest (time k) = Some (k, nx)" ..
    then show ?thesis
      using cn nk rest by (simp add: Let_def not_less not_le)
  qed
qed

lemma selectBracket_at_keyframe:
  assumes "k \<in> set day"
      and "distinct (map time (filter (\<lambda>x. time x \<le> time k) day))"
  shows "\<exists>nx. selectBracket (sort_key time day) (time k) = (k, nx)"
proof -
  have "distinct (map time (filter (\<lambda>x. time x \<le> time k) (sort_key time day)))"
    using assms(2) by (simp add: filter_sort distinct_map_sort_key)
  moreover have "sorted (map time (sort_key time day))" by simp
  moreover have "k \<in> set (sort_key time day)" using assms(1) by simp
  ultimately obtain nx where
    "findBracket (hd (sort_key time day)) (sort_key time day) (time k) = Some (k, nx)"
    using findBracket_at_keyframe by blast
  then show ?thesis by (simp add: selectBracket_def)
qed

lemma factorOf_at_keyframe: "factorOf k nx (time k) = 0"
  by (simp add: factorOf_def timeProgress_def fsub_def fdiv_def fl_zero)

lemma interpolateColor_factor_zero:
  assumes "\<bar>r c1\<bar> < 2 ^ 53" "\<bar>g c1\<bar> < 2 ^ 53" "\<bar>b c1\<bar> < 2 ^ 53"
  shows "interpolateColor (Some c1) (Some c2) 0 = c1"
  using assms by (simp add: lerp_factor_zero)

lemma sampler_exact_match:
  assumes "k \<in> set (dayOr days day)"
      and "distinct (map time (filter (\<lambda>x. time x \<le> time k) (dayOr days day)))"
      and "length (grid k) = gs * gs"
      and "\<forall>c \<in> set (grid k). \<bar>r c\<bar> < 2 ^ 53 \<and> \<bar>g c\<bar> < 2 ^ 53 \<and> \<bar>b c\<bar> < 2 ^ 53"
  shows "updateGridFromTimeline gs days (time k) day = grid k"
proof -
  from assms(1) have ne: "dayOr days day \<noteq> []" by auto
  from selectBracket_at_keyframe [OF assms(1,2)] obtain nx where
    br: "selectBracket (sort_key time (dayOr days day)) (time k) = (k, nx)" ..
  have "updateGridFromTimeline gs days (time k) day
      = map (\<lambda>index. interpolateColor (Some (cellOr (grid k) index))
                          (Some (cellOr (grid nx) index)) 0) [0..<gs * gs]"
    using ne by (simp add: updateGridFromTimeline_def Let_def br factorOf_at_keyframe
        del: sort_key_simps)
  also have "\<dots> = grid k"
  proof (rule nth_equalityI)
    show "length (map (\<lambda>index. interpolateColor (Some (cellOr (grid k) index))
                          (Some (cellOr (grid nx) index)) 0) [0..<gs * gs]) = length (grid k)"
      using assms(3) by simp
  next
    fix i
    assume "i < length (map (\<lambda>index. interpolateColor (Some (cellOr (grid k) index))
                          (Some (cellOr (grid nx) index)) 0) [0..<gs * gs])"
    then have i: "i < gs * gs" by simp
    with assms(3) have c: "cellOr (grid k) i = grid k ! i" "grid k ! i \<in> set (grid k)"
      by (simp_all add: cellOr_def)
    with assms(4) have "\<bar>r (grid k ! i)\<bar> < 2 ^ 53 \<and> \<bar>g (grid k ! i)\<bar> < 2 ^ 53 \<and> \<bar>b (grid k ! i)\<bar> < 2 ^ 53"
      by blast
    then have "interpolateColor (Some (grid k ! i)) (Some (cellOr (grid nx) i)) 0 = grid k ! i"
      by (intro interpolateColor_factor_zero) simp_all
    then show "map (\<lambda>index. interpolateColor (Some (cellOr (grid k) index))
                          (Some (cellOr (grid nx) index)) 0) [0..<gs * gs] ! i = grid k ! i"
      using i c by simp
  qed
  finally show ?thesis .
qed

text \<open>
  Claim C2, at a day on which the code departs from it. The day holds keyframes A and B,
  both at time 0, and K at time 100; no other keyframe shares the time of K. Sampling at
  100, the time of K, the scan stops at A: the test \<^verbatim>\<open>current.time >= next.time\<close>, which
  recognises the last keyframe of the cycle, also holds for the neighbours A and B. The
  result is the grid of A, not the grid of K.
\<close>

theorem sampler_equal_neighbours_hide_keyframe:
  "updateGridFromTimeline 1
     [[\<lparr>id_kf = 1, name = ''A'', time = 0, grid = [\<lparr>r = 255, g = 0, b = 0, active = True\<rparr>]\<rparr>,
       \<lparr>id_kf = 2, name = ''B'', time = 0, grid = [\<lparr>r = 0, g = 255, b = 0, active = True\<rparr>]\<rparr>,
       \<lparr>id_kf = 3, name = ''K'', time = 100, grid = [\<lparr>r = 0, g = 0, b = 255, active = True\<rparr>]\<rparr>]]
     100 0
   = [\<lparr>r = 255, g = 0, b = 0, active = True\<rparr>]"
  by code_simp

text \<open>
  Claim C3. The active flag of an output cell is never a blend: it is the flag of the
  cell of the previous keyframe when the factor is below 0.5, and the flag of the cell
  of the next keyframe otherwise. This holds for \<^verbatim>\<open>interpolateColor\<close> and for every cell
  index of every sample of a non-empty day. With keyframes at time 0 (black, inactive)
  and time 720 (white, active), sampling at 360 gives the factor 0.5 exactly, so the
  flag is the one of the second keyframe, while the colours are blended half way.
\<close>

theorem sampler_active_hard_cut:
  fixes gs :: nat and i0 i1 :: rat and n0 n1 :: string
  defines "k0 \<equiv> \<lparr>id_kf = i0, name = n0, time = 0, grid = replicate (gs * gs) inactiveBlack\<rparr>"
      and "k1 \<equiv> \<lparr>id_kf = i1, name = n1, time = 720,
                  grid = replicate (gs * gs) \<lparr>r = 255, g = 255, b = 255, active = True\<rparr>\<rparr>"
  shows "(\<forall>c1 c2 f. active (interpolateColor (Some c1) (Some c2) f)
              = (if f < 1/2 then active c1 else active c2))
    \<and> (\<forall>days day t index. dayOr days day \<noteq> [] \<and> index < gs * gs \<longrightarrow>
          (let (prev, next) = selectBracket (sort_key time (dayOr days day)) t;
               factor = factorOf prev next t
           in active (updateGridFromTimeline gs days t day ! index)
              = (if factor < 1/2 then active (cellOr (grid prev) index)
                 else active (cellOr (grid next) index))))
    \<and> selectBracket (sort_key time [k0, k1]) 360 = (k0, k1)
    \<and> factorOf k0 k1 360 = 1/2
    \<and> updateGridFromTimeline gs [[k0, k1]] 360 0
        = replicate (gs * gs) \<lparr>r = 128, g = 128, b = 128, active = True\<rparr>"
proof (intro conjI allI impI)
  fix c1 c2 f
  show "active (interpolateColor (Some c1) (Some c2) f)
      = (if f < 1/2 then active c1 else active c2)"
    by simp
next
  fix days day t index
  assume a: "dayOr days day \<noteq> [] \<and> index < gs * gs"
  show "let (prev, next) = selectBracket (sort_key time (dayOr days day)) t;
            factor = factorOf prev next t
        in active (updateGridFromTimeline gs days t day ! index)
           = (if factor < 1/2 then active (cellOr (grid prev) index)
              else active (cellOr (grid next) index))"
    using a by (simp add: updateGridFromTimeline_def Let_def split: prod.splits)
next
  show b: "selectBracket (sort_key time [k0, k1]) 360 = (k0, k1)"
    by (simp add: k0_def k1_def selectBracket_def)
  have d: "timeDiff k0 k1 = 720"
    by (simp add: k0_def k1_def timeDiff_def fl_two_keyframes)
  show f: "factorOf k0 k1 360 = 1/2"
    by (simp add: factorOf_def d) (simp add: k0_def k1_def timeProgress_def fl_two_keyframes)
  show "updateGridFromTimeline gs [[k0, k1]] 360 0
        = replicate (gs * gs) \<lparr>r = 128, g = 128, b = 128, active = True\<rparr>"
    unfolding updateGridFromTimeline_def
    apply (simp add: dayOr_def b f Let_def del: sort_key_simps)
    apply (rule map_upt_const)
    apply (simp add: k0_def k1_def cellOr_replicate inactiveBlack_def lerp_half)
    done
qed

theorem sampler_active_hard_cut_witness:
  "active (updateGridFromTimeline 1
      [[\<lparr>id_kf = 1, name = ''Night'', time = 0, grid = replicate (1 * 1) inactiveBlack\<rparr>,
        \<lparr>id_kf = 2, name = ''Noon'', time = 720,
          grid = replicate (1 * 1) \<lparr>r = 255, g = 255, b = 255, active = True\<rparr>\<rparr>]] 360 0 ! 0)"
proof -
  define k0 where
    "k0 = \<lparr>id_kf = 1, name = ''Night'', time = 0, grid = replicate (1 * 1) inactiveBlack\<rparr>"
  define k1 where
    "k1 = \<lparr>id_kf = 2, name = ''Noon'', time = 720,
            grid = replicate (1 * 1) \<lparr>r = 255, g = 255, b = 255, active = True\<rparr>\<rparr>"
  note th = sampler_active_hard_cut [of 1 1 "''Night''" 2 "''Noon''", folded k0_def k1_def]
  from th have br: "selectBracket (sort_key time [k0, k1]) 360 = (k0, k1)"
    by blast
  from th have fa: "factorOf k0 k1 360 = 1/2"
    by blast
  from th have "dayOr [[k0, k1]] 0 \<noteq> [] \<and> (0::nat) < 1 * 1 \<longrightarrow>
      (let (prev, next) = selectBracket (sort_key time (dayOr [[k0, k1]] 0)) 360;
           factor = factorOf prev next 360
       in active (updateGridFromTimeline 1 [[k0, k1]] 360 0 ! 0)
          = (if factor < 1/2 then active (cellOr (grid prev) 0)
             else active (cellOr (grid next) 0)))"
    by blast
  then have "active (updateGridFromTimeline 1 [[k0, k1]] 360 0 ! 0)"
    using br fa by (simp add: dayOr_def del: sort_key_simps) (simp add: k1_def cellOr_def)
  then show ?thesis
    by (simp only: k0_def k1_def)
qed

section \<open>Properties of the device frame encoder\<close>

lemma length_writeByte [simp]: "length (writeByte buf i v) = length buf"
  by (simp add: writeByte_def)

lemma nth_writeByte: "j < length buf \<Longrightarrow>
    writeByte buf i v ! j = (if j = i then word_of_int v else buf ! j)"
  by (simp add: writeByte_def)

lemma length_writeCells [simp]: "length (writeCells mb cells buf i) = length buf"
  by (induction cells arbitrary: buf i) simp_all

lemma length_concat_cellBytes [simp]: "length (concat (map (cellBytes mb) cells)) = 3 * length cells"
  by (induction cells) (simp_all add: cellBytes_def)

lemma nth_writeCells:
  "j < length buf \<Longrightarrow>
   writeCells mb cells buf i ! j =
     (if i \<le> j \<and> j < i + 3 * length cells then concat (map (cellBytes mb) cells) ! (j - i)
      else buf ! j)"
proof (induction cells arbitrary: buf i)
  case Nil
  then show ?case by auto
next
  case (Cons cell cells)
  have three: "length (cellBytes mb cell) = 3"
    by (simp add: cellBytes_def)
  define buf' where "buf' = writeByte
           (writeByte (writeByte buf i (scaled mb (active cell) (r cell)))
             (i + 1) (scaled mb (active cell) (g cell)))
           (i + 2) (scaled mb (active cell) (b cell))"
  have len: "length buf' = length buf"
    by (simp add: buf'_def)
  have IH: "writeCells mb cells buf' (i + 3) ! j =
     (if i + 3 \<le> j \<and> j < i + 3 + 3 * length cells
      then concat (map (cellBytes mb) cells) ! (j - (i + 3)) else buf' ! j)"
    using Cons.IH [of buf' "i + 3"] Cons.prems len by simp
  have old: "buf' ! j = (if j = i then word_of_int (scaled mb (active cell) (r cell))
      else if j = i + 1 then word_of_int (scaled mb (active cell) (g cell))
      else if j = i + 2 then word_of_int (scaled mb (active cell) (b cell)) else buf ! j)"
    using Cons.prems by (simp add: buf'_def nth_writeByte)
  have step: "writeCells mb (cell # cells) buf i = writeCells mb cells buf' (i + 3)"
    by (simp add: buf'_def)
  consider "j < i" | "j = i" | "j = i + 1" | "j = i + 2" | "i + 3 \<le> j"
    by linarith
  then show ?case
  proof cases
    case 1
    then show ?thesis unfolding step IH old by simp
  next
    case 2
    then show ?thesis unfolding step IH old by (simp add: nth_append cellBytes_def)
  next
    case 3
    then show ?thesis unfolding step IH old by (simp add: nth_append cellBytes_def)
  next
    case 4
    then show ?thesis unfolding step IH old by (simp add: nth_append cellBytes_def)
  next
    case 5
    then have "j - i - 3 = j - (i + 3)" "\<not> j - i < 3" by simp_all
    with 5 show ?thesis unfolding step IH old
      by (auto simp add: nth_append three)
  qed
qed


lemma frame_closed_form:
  "sendGridToArduino True gs mb cells =
     Some (0xAB # of_nat gs #
           take (3 * (gs * gs)) (concat (map (cellBytes mb) cells) @ replicate (3 * (gs * gs)) 0)
           @ [0xBA])"
proof -
  define n where "n = gs * gs"
  define bytes where "bytes = concat (map (cellBytes mb) cells)"
  define buffer2 where "buffer2 = writeByte (writeByte (replicate (1 + 1 + gs * gs * 3 + 1) 0) 0 0xAB) 1 (int gs)"
  define buffer3 where "buffer3 = writeCells mb cells buffer2 2"
  define out where "out = writeByte buffer3 (length buffer3 - 1) 0xBA"
  have l2: "length buffer2 = 3 * n + 3"
    by (simp add: buffer2_def n_def)
  have l3: "length buffer3 = 3 * n + 3"
    by (simp add: buffer3_def l2)
  have lo: "length out = 3 * n + 3"
    by (simp add: out_def l3)
  have lb: "length bytes = 3 * length cells"
    by (simp add: bytes_def)
  have n2: "buffer2 ! j = (if j = 0 then 0xAB else if j = 1 then of_nat gs else 0)"
    if "j < 3 * n + 3" for j
  proof -
    define len where "len = 1 + 1 + gs * gs * 3 + 1"
    have "j < len" "0 < len" "1 < len"
      using that by (simp_all add: len_def n_def)
    then have "writeByte (writeByte (replicate len 0) 0 0xAB) 1 (int gs) ! j
        = (if j = 0 then 0xAB else if j = 1 then of_nat gs else 0)"
      by (simp add: nth_writeByte)
    then show ?thesis
      by (simp only: buffer2_def len_def)
  qed
  have n3: "\<And>j. j < 3 * n + 3 \<Longrightarrow>
      buffer3 ! j = (if 2 \<le> j \<and> j < 2 + 3 * length cells then bytes ! (j - 2) else buffer2 ! j)"
    unfolding buffer3_def bytes_def using l2 by (simp add: nth_writeCells)
  have no: "\<And>j. j < 3 * n + 3 \<Longrightarrow>
      out ! j = (if j = 3 * n + 2 then 0xBA else buffer3 ! j)"
    unfolding out_def using l3 by (simp add: nth_writeByte)
  define mid where "mid = take (3 * n) (bytes @ replicate (3 * n) 0)"
  have lm: "length mid = 3 * n"
    by (simp add: mid_def)
  have nm: "\<And>k. k < 3 * n \<Longrightarrow> mid ! k = (if k < length bytes then bytes ! k else 0)"
    by (simp add: mid_def nth_append)
  define rhs where "rhs = 0xAB # of_nat gs # mid @ [0xBA]"
  have lr: "length rhs = 3 * n + 3"
    by (simp add: rhs_def lm)
  have "out ! j = rhs ! j" if j: "j < 3 * n + 3" for j
  proof -
    consider "j = 0" | "j = 1" | k where "j = Suc (Suc k)" "k < 3 * n" | "j = Suc (Suc (3 * n))"
    proof (cases j)
      case 0
      then show ?thesis using that by simp
    next
      case (Suc j')
      then show ?thesis using that j by (cases j') (auto simp: less_Suc_eq)
    qed
    then show ?thesis
    proof cases
      case 1
      then show ?thesis using j by (simp add: no n3 n2 rhs_def)
    next
      case 2
      then show ?thesis using j by (simp add: no n3 n2 rhs_def)
    next
      case 3
      then show ?thesis using j
        by (auto simp add: no n3 n2 rhs_def nth_append lb lm nm)
    next
      case 4
      have "rhs ! j = (mid @ [0xBA]) ! length mid"
        by (simp add: rhs_def 4 lm)
      then show ?thesis using j 4
        by (simp add: no)
    qed
  qed
  then have "out = rhs"
    using lo lr by (simp add: list_eq_iff_nth_eq)
  then show ?thesis
    by (simp add: sendGridToArduino_def Let_def out_def buffer3_def buffer2_def rhs_def mid_def bytes_def n_def)
qed

lemma Math_round_exact: "Math_round (of_int n / 100) = (n + 50) div 100"
proof -
  have "(of_int n / 100 + 1 / 2 :: rat) = of_int (n + 50) / of_int 100"
    by (simp add: field_simps)
  then show ?thesis
    unfolding Math_round_def by (simp only: floor_divide_of_int_eq)
qed

lemma scaled_inactive: "scaled mb False c = 0"
  by (simp add: scaled_def fmul_def fl_def Math_round_def floor_half)

lemma scaled_floor:
  fixes c mb :: int
  assumes "0 \<le> c" "c \<le> 255" "0 \<le> mb" "mb \<le> 100"
  obtains p :: rat where "scaled (of_int mb) True c = \<lfloor>p + 1/2\<rfloor>"
    and "\<bar>p - of_int (c * mb) / 100\<bar> \<le> 1 / 1000"
proof
  show "scaled (of_int mb) True c = \<lfloor>fmul (of_int c) (fdiv (of_int mb) 100) + 1/2\<rfloor>"
    by (simp add: scaled_def Math_round_def)
  show "\<bar>fmul (of_int c) (fdiv (of_int mb) 100) - of_int (c * mb) / 100\<bar> \<le> 1 / 1000"
    using assms by (rule scaled_err)
qed

lemma split_hundred:
  fixes n :: int
  obtains k rem where "k = (n + 50) div 100" "0 \<le> rem" "rem \<le> 99"
    "(of_int n / 100 + 1/2 :: rat) = of_int k + of_int rem / 100"
    "n mod 100 \<noteq> 50 \<longrightarrow> 1 \<le> rem"
proof
  define k where "k = (n + 50) div 100"
  define rem where "rem = (n + 50) mod 100"
  show "k = (n + 50) div 100" by (rule k_def)
  show "0 \<le> rem" by (simp add: rem_def)
  have "rem < 100" by (simp add: rem_def)
  then show "rem \<le> 99" by simp
  have "n + 50 = 100 * k + rem" by (simp add: k_def rem_def)
  then have "(of_int (n + 50) :: rat) = of_int (100 * k + rem)" by (simp only:)
  then show "(of_int n / 100 + 1/2 :: rat) = of_int k + of_int rem / 100"
    by (simp add: field_simps)
  show "n mod 100 \<noteq> 50 \<longrightarrow> 1 \<le> rem"
  proof
    assume nt: "n mod 100 \<noteq> 50"
    define m where "m = n mod 100"
    have m: "0 \<le> m" "m < 100" "m \<noteq> 50"
      using nt by (simp_all add: m_def)
    have e: "rem = (m + 50) mod 100"
      by (simp add: rem_def m_def mod_add_left_eq)
    show "1 \<le> rem"
    proof (cases "m < 50")
      case True
      then have "(m + 50) mod 100 = m + 50"
        using m by (intro mod_pos_pos_trivial) simp_all
      then show ?thesis using m e by simp
    next
      case False
      have "m + 50 = m - 50 + 100" by simp
      then have "(m + 50) mod 100 = (m - 50 + 100) mod 100" by (simp only:)
      also have "\<dots> = (m - 50) mod 100" by (simp only: mod_add_self2)
      also have "\<dots> = m - 50"
        using m False by (intro mod_pos_pos_trivial) simp_all
      finally show ?thesis using m False e by simp
    qed
  qed
qed

lemma scaled_bounds:
  fixes c mb :: int
  assumes "0 \<le> c" "c \<le> 255" "0 \<le> mb" "mb \<le> 100"
  shows "(c * mb + 50) div 100 - 1 \<le> scaled (of_int mb) True c
       \<and> scaled (of_int mb) True c \<le> (c * mb + 50) div 100
       \<and> 0 \<le> scaled (of_int mb) True c \<and> scaled (of_int mb) True c \<le> 255"
proof -
  obtain p :: rat where s: "scaled (of_int mb) True c = \<lfloor>p + 1/2\<rfloor>"
    and err: "\<bar>p - of_int (c * mb) / 100\<bar> \<le> 1 / 1000"
    using assms by (rule scaled_floor)
  obtain k rem where k: "k = (c * mb + 50) div 100" and rem: "0 \<le> rem" "rem \<le> 99"
    and xk: "(of_int (c * mb) / 100 + 1/2 :: rat) = of_int k + of_int rem / 100"
    by (rule split_hundred [of "c * mb"])
  define x :: rat where "x = of_int (c * mb) / 100"
  have r0: "(0::rat) \<le> of_int rem" "(of_int rem :: rat) \<le> 99"
    using rem by simp_all
  have "of_int k - 1 \<le> p + 1/2" "p + 1/2 < of_int k + 1"
    using err xk r0 unfolding x_def [symmetric] by linarith+
  then have "of_int (k - 1) \<le> p + 1/2" "p + 1/2 < of_int (k + 1)"
    by simp_all
  then have "k - 1 \<le> \<lfloor>p + 1/2\<rfloor>" "\<lfloor>p + 1/2\<rfloor> < k + 1"
    by (simp_all only: le_floor_iff floor_less_iff)
  then have lo: "k - 1 \<le> \<lfloor>p + 1/2\<rfloor>" and hi: "\<lfloor>p + 1/2\<rfloor> \<le> k"
    by simp_all
  have x0: "0 \<le> x" using assms by (simp add: x_def)
  have "c * mb \<le> 255 * 100" using assms by (intro mult_mono) simp_all
  then have "(of_int (c * mb) :: rat) \<le> of_int (255 * 100)" by (simp only: of_int_le_iff)
  then have x1: "x \<le> 255" by (simp add: x_def)
  have "(0::rat) \<le> p + 1/2" using err x0 unfolding x_def [symmetric] by linarith
  then have nn: "0 \<le> \<lfloor>p + 1/2\<rfloor>" by (simp only: zero_le_floor)
  have "p + 1/2 < 256" using err x1 unfolding x_def [symmetric] by linarith
  then have "p + 1/2 < of_int 256" by simp
  then have "\<lfloor>p + 1/2\<rfloor> < 256" by (simp only: floor_less_iff)
  then have up: "\<lfloor>p + 1/2\<rfloor> \<le> 255" by simp
  show ?thesis
    unfolding s using lo hi nn up unfolding k by (intro conjI)
qed

lemma scaled_exact:
  fixes c mb :: int
  assumes "0 \<le> c" "c \<le> 255" "0 \<le> mb" "mb \<le> 100" and nt: "(c * mb) mod 100 \<noteq> 50"
  shows "scaled (of_int mb) True c = (c * mb + 50) div 100"
proof -
  obtain p :: rat where s: "scaled (of_int mb) True c = \<lfloor>p + 1/2\<rfloor>"
    and err: "\<bar>p - of_int (c * mb) / 100\<bar> \<le> 1 / 1000"
    using assms(1-4) by (rule scaled_floor)
  obtain k rem where k: "k = (c * mb + 50) div 100" and rem: "0 \<le> rem" "rem \<le> 99"
    and xk: "(of_int (c * mb) / 100 + 1/2 :: rat) = of_int k + of_int rem / 100"
     and r: "(c * mb) mod 100 \<noteq> 50 \<longrightarrow> 1 \<le> rem"
    by (rule split_hundred [of "c * mb"])
  define x :: rat where "x = of_int (c * mb) / 100"
  from r nt have "1 \<le> rem" by simp
  then have r1: "(1::rat) \<le> of_int rem" by simp
  have r0: "(of_int rem :: rat) \<le> 99"
    using rem by simp
  have "of_int k \<le> p + 1/2" "p + 1/2 < of_int k + 1"
    using err xk r1 r0 unfolding x_def [symmetric] by linarith+
  then have "\<lfloor>p + 1/2\<rfloor> = k" by (simp only: floor_unique)
  then show ?thesis
    by (simp only: s k)
qed

lemma concat_cellBytes_take:
  "concat (map (cellBytes mb) (take n cells)) = take (3 * n) (concat (map (cellBytes mb) cells))"
proof (induction cells arbitrary: n)
  case Nil
  then show ?case by simp
next
  case (Cons cell cells)
  show ?case
  proof (cases n)
    case 0
    then show ?thesis by simp
  next
    case (Suc m)
    have "3 * Suc m = Suc (Suc (Suc (3 * m)))" by simp
    then show ?thesis using Suc Cons.IH [of m]
      by (simp add: cellBytes_def del: mult_Suc_right)
  qed
qed

lemma nth_concat_cellBytes:
  "k < length cells \<Longrightarrow> i < 3 \<Longrightarrow>
   concat (map (cellBytes mb) cells) ! (3 * k + i) = cellBytes mb (cells ! k) ! i"
proof (induction cells arbitrary: k)
  case Nil
  then show ?case by simp
next
  case (Cons cell cells)
  have l: "length (cellBytes mb cell) = 3" by (simp add: cellBytes_def)
  show ?case
  proof (cases k)
    case 0
    then show ?thesis using Cons.prems by (simp add: nth_append l)
  next
    case (Suc m)
    then have "3 * k + i - 3 = 3 * m + i" "\<not> 3 * k + i < 3" by simp_all
    then show ?thesis using Suc Cons.prems Cons.IH [of m]
      by (simp add: nth_append l)
  qed
qed

text \<open>
  Claim C10. Whatever the length of the grid, the encoder produces a buffer of
  \<open>2 + 3 * gridSize\<^sup>2 + 1\<close> bytes whose first byte is 0xAB, whose second byte is the grid
  size (as a byte) and whose last byte is 0xBA. The cells from index \<open>gridSize\<^sup>2\<close> on
  of a grid that is too long leave no trace in the buffer, the cells that are present
  are written in order, and the bytes of the cells that a short grid lacks are zero.
\<close>

theorem frame_well_formed_for_any_grid:
  "\<exists>buffer. sendGridToArduino True gs mb cells = Some buffer
     \<and> length buffer = 2 + 3 * (gs * gs) + 1
     \<and> buffer ! 0 = 0xAB \<and> buffer ! 1 = of_nat gs
     \<and> (gs < 256 \<longrightarrow> unat (buffer ! 1) = gs)
     \<and> last buffer = 0xBA
     \<and> sendGridToArduino True gs mb (take (gs * gs) cells) = Some buffer
     \<and> (\<forall>k i. k < length cells \<and> k < gs * gs \<and> i < 3 \<longrightarrow>
            buffer ! (2 + 3 * k + i) = cellBytes mb (cells ! k) ! i)
     \<and> (\<forall>j. 2 + 3 * length cells \<le> j \<and> j < 2 + 3 * (gs * gs) \<longrightarrow> buffer ! j = 0)"
proof -
  define n where "n = gs * gs"
  define X where "X = concat (map (cellBytes mb) cells)"
  define mid where "mid = take (3 * n) (X @ replicate (3 * n) 0)"
  define buffer where "buffer = 0xAB # of_nat gs # mid @ [0xBA]"
  have lX: "length X = 3 * length cells" by (simp add: X_def)
  have lm: "length mid = 3 * n" by (simp add: mid_def)
  have nm: "\<And>j. j < 3 * n \<Longrightarrow> mid ! j = (if j < length X then X ! j else 0)"
    by (simp add: mid_def nth_append)
  have nb: "\<And>j. j < 3 * n \<Longrightarrow> buffer ! (2 + j) = mid ! j"
    by (simp add: buffer_def nth_append lm)
  have 1: "sendGridToArduino True gs mb cells = Some buffer"
    by (simp add: frame_closed_form buffer_def mid_def X_def n_def)
  have 2: "length buffer = 2 + 3 * n + 1" by (simp add: buffer_def lm)
  have 3: "buffer ! 0 = 0xAB" "buffer ! 1 = of_nat gs" "last buffer = 0xBA"
    by (simp_all add: buffer_def)
  have 4: "gs < 256 \<longrightarrow> unat (buffer ! 1) = gs"
    unfolding 3 by (simp add: unat_of_nat)
  have "take (3 * n) (concat (map (cellBytes mb) (take n cells)) @ replicate (3 * n) 0) = mid"
    by (simp add: concat_cellBytes_take mid_def X_def min_def)
  then have 5: "sendGridToArduino True gs mb (take (gs * gs) cells) = Some buffer"
    by (simp add: frame_closed_form buffer_def n_def)
  have 6: "buffer ! (2 + 3 * k + i) = cellBytes mb (cells ! k) ! i"
    if "k < length cells \<and> k < n \<and> i < 3" for k i
  proof -
    have "3 * k + i < 3 * n" "3 * k + i < length X" using that lX by simp_all
    then have "buffer ! (2 + (3 * k + i)) = X ! (3 * k + i)"
      by (simp only: nb nm if_True)
    then show ?thesis using that by (simp add: X_def nth_concat_cellBytes add.assoc)
  qed
  have 7: "buffer ! j = 0" if "2 + 3 * length cells \<le> j \<and> j < 2 + 3 * n" for j
  proof -
    define j' where "j' = j - 2"
    have "j = 2 + j'" "j' < 3 * n" "\<not> j' < length X"
      using that lX unfolding j'_def by linarith+
    then show ?thesis by (simp only: nb nm if_False)
  qed
  show ?thesis
    using 1 2 3 4 5 6 7 unfolding n_def by blast
qed

theorem frame_well_formed_for_any_grid_witness:
  "sendGridToArduino True 1 100
     [\<lparr>r = 1, g = 2, b = 3, active = True\<rparr>, \<lparr>r = 9, g = 9, b = 9, active = True\<rparr>]
   = Some [0xAB, 1, 1, 2, 3, 0xBA]
   \<and> sendGridToArduino True 2 100 [\<lparr>r = 1, g = 2, b = 3, active = True\<rparr>] 
   = Some [0xAB, 2, 1, 2, 3, 0, 0, 0, 0, 0, 0, 0, 0, 0, 0xBA]"
proof -
  have a: "sendGridToArduino True 1 100 (take (1 * 1)
      [\<lparr>r = 1, g = 2, b = 3, active = True\<rparr>, \<lparr>r = 9, g = 9, b = 9, active = True\<rparr>])
    = Some [0xAB, 1, 1, 2, 3, 0xBA]"
    by code_simp
  have b: "cellBytes 100 \<lparr>r = 1, g = 2, b = 3, active = True\<rparr> = [1, 2, 3]"
    by code_simp
  obtain buffer where 1: "sendGridToArduino True 1 100
     [\<lparr>r = 1, g = 2, b = 3, active = True\<rparr>, \<lparr>r = 9, g = 9, b = 9, active = True\<rparr>] = Some buffer"
     and 2: "sendGridToArduino True 1 100 (take (1 * 1)
     [\<lparr>r = 1, g = 2, b = 3, active = True\<rparr>, \<lparr>r = 9, g = 9, b = 9, active = True\<rparr>]) = Some buffer"
    using frame_well_formed_for_any_grid [of 1 100
      "[\<lparr>r = 1, g = 2, b = 3, active = True\<rparr>, \<lparr>r = 9, g = 9, b = 9, active = True\<rparr>]"]
    by blast
  obtain buffer' where 3: "sendGridToArduino True 2 100 [\<lparr>r = 1, g = 2, b = 3, active = True\<rparr>] = Some buffer'"
    and 4: "length buffer' = 2 + 3 * (2 * 2) + 1"
    and 5: "buffer' ! 0 = 0xAB" "buffer' ! 1 = of_nat 2" "last buffer' = 0xBA"
    and 6: "\<forall>k i. k < length [\<lparr>r = 1, g = 2, b = 3, active = True\<rparr>] \<and> k < 2 * 2 \<and> i < 3 \<longrightarrow>
            buffer' ! (2 + 3 * k + i) = cellBytes 100 ([\<lparr>r = 1, g = 2, b = 3, active = True\<rparr>] ! k) ! i"
    and 7: "\<forall>j. 2 + 3 * length [\<lparr>r = 1, g = 2, b = 3, active = True\<rparr>] \<le> j \<and> j < 2 + 3 * (2 * 2) \<longrightarrow> buffer' ! j = 0"
    using frame_well_formed_for_any_grid [of 2 100 "[\<lparr>r = 1, g = 2, b = 3, active = True\<rparr>]"]
    by blast
  have "buffer' ! (2 + 3 * 0 + 0) = 1" "buffer' ! (2 + 3 * 0 + 1) = 2" "buffer' ! (2 + 3 * 0 + 2) = 3"
    using 6 [rule_format, of 0 0] 6 [rule_format, of 0 1] 6 [rule_format, of 0 2]
    by (simp_all add: b)
  then have 8: "buffer' ! 2 = 1" "buffer' ! 3 = 2" "buffer' ! 4 = 3" by simp_all
  have 9: "buffer' ! 5 = 0" "buffer' ! 6 = 0" "buffer' ! 7 = 0" "buffer' ! 8 = 0" "buffer' ! 9 = 0"
    "buffer' ! 10 = 0" "buffer' ! 11 = 0" "buffer' ! 12 = 0" "buffer' ! 13 = 0"
    using 7 by simp_all
  have "buffer' ! 14 = last buffer'"
    using 4 by (simp add: last_conv_nth length_greater_0_conv [symmetric] del: length_greater_0_conv)
  then have 10: "buffer' ! 14 = 0xBA" using 5 by simp
  have "buffer' = [0xAB, 2, 1, 2, 3, 0, 0, 0, 0, 0, 0, 0, 0, 0, 0xBA]"
    using 4 5 8 9 10
    by (simp add: list_eq_iff_nth_eq less_Suc_eq numeral_eq_Suc All_less_Suc2 nth_Cons')
  then show ?thesis using 1 2 3 a by simp
qed

lemma scaled_byte:
  fixes c mb :: int
  assumes "0 \<le> c" "c \<le> 255" "0 \<le> mb" "mb \<le> 100"
  shows "uint (word_of_int (scaled (of_int mb) act c) :: byte) = scaled (of_int mb) act c
    \<and> (\<not> act \<longrightarrow> scaled (of_int mb) act c = 0)
    \<and> (act \<longrightarrow> Math_round (of_int c * of_int mb / 100) - 1 \<le> scaled (of_int mb) act c
              \<and> scaled (of_int mb) act c \<le> Math_round (of_int c * of_int mb / 100))
    \<and> (act \<and> (c * mb) mod 100 \<noteq> 50 \<longrightarrow>
          scaled (of_int mb) act c = Math_round (of_int c * of_int mb / 100))"
proof (cases act)
  case False
  then show ?thesis by (simp add: scaled_inactive)
next
  case True
  have e: "Math_round (of_int c * of_int mb / 100) = (c * mb + 50) div 100"
    using Math_round_exact [of "c * mb"] by simp
  note bnd = scaled_bounds [OF assms]
  from bnd have "0 \<le> scaled (of_int mb) True c" "scaled (of_int mb) True c < 2 ^ 8"
    by simp_all
  then have "scaled (of_int mb) True c mod 2 ^ 8 = scaled (of_int mb) True c"
    by (rule mod_pos_pos_trivial)
  then have u: "uint (word_of_int (scaled (of_int mb) True c) :: byte) = scaled (of_int mb) True c"
    by (simp add: uint_word_of_int)
  from True have act: "act = True" by simp
  show ?thesis
    unfolding act e using u bnd scaled_exact [OF assms] by simp
qed

text \<open>
  Claim C4, as the code has it. For a grid of exactly \<open>gridSize\<^sup>2\<close> cells with components
  in [0,255] and an integer master brightness in [0,100], the buffer has
  \<open>2 + 3 * gridSize\<^sup>2 + 1\<close> bytes: 0xAB, the grid size, the bytes R, G, B of each cell in
  order, 0xBA. A byte of an inactive cell is 0. A byte of an active cell is
  \<^verbatim>\<open>Math.round(component * (masterBrightness / 100))\<close> computed in doubles, a value in
  [0,255]; it equals \<open>round (component * masterBrightness / 100)\<close> whenever that
  quotient is not exactly half way between two integers, and is that value or one
  less otherwise. For grid size 2, four cells (200, 100, 50, active) and brightness 50
  the buffer is 0xAB, 2, four times 100, 50, 25, and 0xBA.
\<close>

theorem frame_layout:
  fixes mb :: int
  assumes len: "length cells = gs * gs"
      and rng: "\<forall>cell \<in> set cells. 0 \<le> r cell \<and> r cell \<le> 255 \<and> 0 \<le> g cell \<and> g cell \<le> 255
                   \<and> 0 \<le> b cell \<and> b cell \<le> 255"
      and mb: "0 \<le> mb" "mb \<le> 100"
  shows "sendGridToArduino True gs (of_int mb) cells
           = Some ([0xAB, of_nat gs] @ concat (map (cellBytes (of_int mb)) cells) @ [0xBA])
     \<and> length ([0xAB, of_nat gs] @ concat (map (cellBytes (of_int mb)) cells) @ [0xBA])
           = 2 + 3 * (gs * gs) + 1
     \<and> (\<forall>cell \<in> set cells.
          cellBytes (of_int mb) cell
            = [word_of_int (scaled (of_int mb) (active cell) (r cell)),
               word_of_int (scaled (of_int mb) (active cell) (g cell)),
               word_of_int (scaled (of_int mb) (active cell) (b cell))]
        \<and> (\<forall>c \<in> {r cell, g cell, b cell}.
             uint (word_of_int (scaled (of_int mb) (active cell) c) :: byte)
               = scaled (of_int mb) (active cell) c
           \<and> (\<not> active cell \<longrightarrow> scaled (of_int mb) (active cell) c = 0)
           \<and> (active cell \<longrightarrow>
                 Math_round (of_int c * of_int mb / 100) - 1 \<le> scaled (of_int mb) (active cell) c
               \<and> scaled (of_int mb) (active cell) c \<le> Math_round (of_int c * of_int mb / 100))
           \<and> (active cell \<and> (c * mb) mod 100 \<noteq> 50 \<longrightarrow>
                 scaled (of_int mb) (active cell) c = Math_round (of_int c * of_int mb / 100))))
     \<and> sendGridToArduino True 2 50 (replicate 4 \<lparr>r = 200, g = 100, b = 50, active = True\<rparr>)
           = Some [0xAB, 2, 100, 50, 25, 100, 50, 25, 100, 50, 25, 100, 50, 25, 0xBA]"
proof -
  have "length (concat (map (cellBytes (of_int mb)) cells)) = 3 * (gs * gs)"
    by (simp add: len)
  then have A: "sendGridToArduino True gs (of_int mb) cells
           = Some ([0xAB, of_nat gs] @ concat (map (cellBytes (of_int mb)) cells) @ [0xBA])"
    by (simp add: frame_closed_form)
  have B: "length ([0xAB, of_nat gs] @ concat (map (cellBytes (of_int mb)) cells) @ [0xBA])
           = 2 + 3 * (gs * gs) + 1"
    by (simp add: len)
  have D: "sendGridToArduino True 2 50 (replicate 4 \<lparr>r = 200, g = 100, b = 50, active = True\<rparr>)
           = Some [0xAB, 2, 100, 50, 25, 100, 50, 25, 100, 50, 25, 100, 50, 25, 0xBA]"
    by code_simp
  have C: "\<forall>cell \<in> set cells.
          cellBytes (of_int mb) cell
            = [word_of_int (scaled (of_int mb) (active cell) (r cell)),
               word_of_int (scaled (of_int mb) (active cell) (g cell)),
               word_of_int (scaled (of_int mb) (active cell) (b cell))]
        \<and> (\<forall>c \<in> {r cell, g cell, b cell}.
             uint (word_of_int (scaled (of_int mb) (active cell) c) :: byte)
               = scaled (of_int mb) (active cell) c
           \<and> (\<not> active cell \<longrightarrow> scaled (of_int mb) (active cell) c = 0)
           \<and> (active cell \<longrightarrow>
                 Math_round (of_int c * of_int mb / 100) - 1 \<le> scaled (of_int mb) (active cell) c
               \<and> scaled (of_int mb) (active cell) c \<le> Math_round (of_int c * of_int mb / 100))
           \<and> (active cell \<and> (c * mb) mod 100 \<noteq> 50 \<longrightarrow>
                 scaled (of_int mb) (active cell) c = Math_round (of_int c * of_int mb / 100)))"
  proof (rule ballI, rule conjI)
    fix cell
    assume cell: "cell \<in> set cells"
    show "cellBytes (of_int mb) cell
            = [word_of_int (scaled (of_int mb) (active cell) (r cell)),
               word_of_int (scaled (of_int mb) (active cell) (g cell)),
               word_of_int (scaled (of_int mb) (active cell) (b cell))]"
      by (simp add: cellBytes_def)
    show "\<forall>c \<in> {r cell, g cell, b cell}.
             uint (word_of_int (scaled (of_int mb) (active cell) c) :: byte)
               = scaled (of_int mb) (active cell) c
           \<and> (\<not> active cell \<longrightarrow> scaled (of_int mb) (active cell) c = 0)
           \<and> (active cell \<longrightarrow>
                 Math_round (of_int c * of_int mb / 100) - 1 \<le> scaled (of_int mb) (active cell) c
               \<and> scaled (of_int mb) (active cell) c \<le> Math_round (of_int c * of_int mb / 100))
           \<and> (active cell \<and> (c * mb) mod 100 \<noteq> 50 \<longrightarrow>
                 scaled (of_int mb) (active cell) c = Math_round (of_int c * of_int mb / 100))"
    proof (rule ballI)
      fix c
      assume c: "c \<in> {r cell, g cell, b cell}"
      with rng cell have "0 \<le> c" "c \<le> 255" by auto
      then show "uint (word_of_int (scaled (of_int mb) (active cell) c) :: byte)
               = scaled (of_int mb) (active cell) c
           \<and> (\<not> active cell \<longrightarrow> scaled (of_int mb) (active cell) c = 0)
           \<and> (active cell \<longrightarrow>
                 Math_round (of_int c * of_int mb / 100) - 1 \<le> scaled (of_int mb) (active cell) c
               \<and> scaled (of_int mb) (active cell) c \<le> Math_round (of_int c * of_int mb / 100))
           \<and> (active cell \<and> (c * mb) mod 100 \<noteq> 50 \<longrightarrow>
                 scaled (of_int mb) (active cell) c = Math_round (of_int c * of_int mb / 100))"
        using mb by (rule scaled_byte)
    qed
  qed
  show ?thesis
    by (rule conjI [OF A conjI [OF B conjI [OF C D]]])
qed

theorem frame_layout_witness:
  "sendGridToArduino True 1 7 [\<lparr>r = 255, g = 30, b = 0, active = True\<rparr>]
     = Some [0xAB, 1, 18, 2, 0, 0xBA]"
proof -
  have c: "cellBytes 7 \<lparr>r = 255, g = 30, b = 0, active = True\<rparr> = [18, 2, 0]"
    by code_simp
  have "sendGridToArduino True 1 (of_int 7) [\<lparr>r = 255, g = 30, b = 0, active = True\<rparr>]
     = Some ([0xAB, of_nat 1] @ concat (map (cellBytes (of_int 7))
          [\<lparr>r = 255, g = 30, b = 0, active = True\<rparr>]) @ [0xBA])"
    using frame_layout [of "[\<lparr>r = 255, g = 30, b = 0, active = True\<rparr>]" 1 7] by simp
  then show ?thesis by (simp add: c)
qed

text \<open>
  At brightness 58 the double nearest to 0.58 lies below 0.58, and its product with 25
  rounds to a double below 14.5: the byte of the component 25 is 14, while
  \<open>round (25 * 58 / 100) = round 14.5 = 15\<close>.
\<close>

theorem frame_rounding_tie_counterexample:
  "sendGridToArduino True 1 58 [\<lparr>r = 25, g = 100, b = 50, active = True\<rparr>]
     = Some [0xAB, 1, 14, 58, 29, 0xBA]
   \<and> Math_round (25 * 58 / 100) = 15
   \<and> fdiv 58 100 = 5224175567749775 / 9007199254740992
   \<and> fmul 25 (fdiv 58 100) = 8162774324609023 / 562949953421312"
  by code_simp

section \<open>Properties of the grid resize\<close>

lemma cellOr_map_upt: "cellOr (map f [0..<n]) i = (if i < n then f i else inactiveBlack)"
  by (simp add: cellOr_def)

lemma resize_8_4_8:
  "keyframesByDay (setGridSize 8 (setGridSize 4 s))
     = map (map (\<lambda>kf. kf\<lparr>grid := map (\<lambda>i. if i < 16 then cellOr (grid kf) i else inactiveBlack)
                                    [0..<64]\<rparr>))
           (keyframesByDay s)"
  by (simp add: setGridSize_def resizeEffect_def Let_def cellOr_map_upt comp_def)

text \<open>
  Claim C5. Resizing the grid dimension to 4 and then to 8 maps every grid of every
  keyframe of every day to a grid of 64 cells: the cells at the indices 0 to 15 are
  the original cells at those indices, and every cell at the indices 16 to 63 is
  inactive black. The days, the keyframes and their ids, names and times stay.
\<close>

theorem resize_round_trip_8_4_8:
  "gridSize (setGridSize 8 (setGridSize 4 s)) = 8
   \<and> length (keyframesByDay (setGridSize 8 (setGridSize 4 s))) = length (keyframesByDay s)
   \<and> (\<forall>d < length (keyframesByDay s).
        length (keyframesByDay (setGridSize 8 (setGridSize 4 s)) ! d) = length (keyframesByDay s ! d)
      \<and> (\<forall>k < length (keyframesByDay s ! d).
            (let kf = keyframesByDay s ! d ! k;
                 kf' = keyframesByDay (setGridSize 8 (setGridSize 4 s)) ! d ! k
             in id_kf kf' = id_kf kf \<and> name kf' = name kf \<and> time kf' = time kf
              \<and> length (grid kf') = 64
              \<and> (\<forall>i < 16. i < length (grid kf) \<longrightarrow> grid kf' ! i = grid kf ! i)
              \<and> (\<forall>i. 16 \<le> i \<and> i < 64 \<longrightarrow> grid kf' ! i = inactiveBlack))))"
  by (simp add: resize_8_4_8 Let_def) (simp add: setGridSize_def resizeEffect_def cellOr_def)

theorem resize_round_trip_8_4_8_witness:
  "(let s = \<lparr>gridSize = 8,
         keyframesByDay = [[\<lparr>id_kf = 1, name = ''Noon'', time = 720,
             grid = replicate 64 \<lparr>r = 255, g = 255, b = 255, active = True\<rparr>\<rparr>]],
         selectedDay = 0, selectedKeyframe = 0, totalDays = 1, absoluteTime = 0\<rparr>;
        kf' = keyframesByDay (setGridSize 8 (setGridSize 4 s)) ! 0 ! 0
    in length (grid kf') = 64
     \<and> grid kf' ! 3 = \<lparr>r = 255, g = 255, b = 255, active = True\<rparr>
     \<and> grid kf' ! 20 = inactiveBlack)"
  using resize_round_trip_8_4_8 [of "\<lparr>gridSize = 8,
         keyframesByDay = [[\<lparr>id_kf = 1, name = ''Noon'', time = 720,
             grid = replicate 64 \<lparr>r = 255, g = 255, b = 255, active = True\<rparr>\<rparr>]],
         selectedDay = 0, selectedKeyframe = 0, totalDays = 1, absoluteTime = 0\<rparr>"]
  by (simp add: Let_def)

section \<open>Operations on an id that the day does not hold\<close>

lemma dayOr_setDay: "dayOr (setDay days i v) i = v"
  by (simp add: dayOr_def setDay_def nth_append)

lemma setDay_same: "i < length days \<Longrightarrow> setDay days i (days ! i) = days"
  by (simp add: setDay_def)

lemma filter_absent_id: "kid \<notin> id_kf ` set day \<Longrightarrow> filter (\<lambda>kf. id_kf kf \<noteq> kid) day = day"
  by (induction day) auto

lemma map_absent_id: "kid \<notin> id_kf ` set day \<Longrightarrow> map (\<lambda>kf. if id_kf kf = kid then f kf else kf) day = day"
  by (induction day) auto

text \<open>
  Claim C8, as the code has it. When the id occurs in no keyframe of the selected day,
  \<^verbatim>\<open>deleteKeyframe\<close> and \<^verbatim>\<open>updateKeyframeName\<close> leave the day's list as it is (and
  \<^verbatim>\<open>deleteKeyframe\<close> leaves every day as it is). \<^verbatim>\<open>updateKeyframeTime\<close> changes no
  keyframe either, but it sorts the list: the day afterwards is the stable sort by time
  of the day before, with the same keyframes (for each time, the same keyframes in the
  same order), and it is the same list when the day was sorted by time already.
\<close>

theorem absent_id_store_operations:
  assumes "kid \<notin> id_kf ` set (dayOr (keyframesByDay s) (selectedDay s))"
  shows "(let day = dayOr (keyframesByDay s) (selectedDay s);
              sortedDay = dayOr (keyframesByDay (updateKeyframeTime s kid newTime)) (selectedDay s)
          in dayOr (keyframesByDay (deleteKeyframe s kid)) (selectedDay s) = day
           \<and> keyframesByDay (deleteKeyframe s kid) = keyframesByDay s
           \<and> dayOr (keyframesByDay (updateKeyframeName s kid newName)) (selectedDay s) = day
           \<and> sortedDay = sort_key time day
           \<and> sorted (map time sortedDay)
           \<and> length sortedDay = length day
           \<and> (\<forall>t. filter (\<lambda>kf. time kf = t) sortedDay = filter (\<lambda>kf. time kf = t) day)
           \<and> (sorted (map time day) \<longrightarrow> sortedDay = day))"
proof -
  define day where "day = dayOr (keyframesByDay s) (selectedDay s)"
  have 1: "keyframesByDay (deleteKeyframe s kid) = keyframesByDay s"
  proof (cases "selectedDay s < length (keyframesByDay s)")
    case True
    then show ?thesis using assms
      by (simp add: deleteKeyframe_def Let_def filter_absent_id) (simp add: dayOr_def setDay_def)
  next
    case False
    then show ?thesis by (simp add: deleteKeyframe_def Let_def dayOr_def)
  qed
  have 2: "dayOr (keyframesByDay (updateKeyframeName s kid newName)) (selectedDay s) = day"
    using assms by (simp add: updateKeyframeName_def Let_def dayOr_setDay map_absent_id day_def)
  have 3: "dayOr (keyframesByDay (updateKeyframeTime s kid newTime)) (selectedDay s) = sort_key time day"
    using assms by (simp add: updateKeyframeTime_def Let_def dayOr_setDay map_absent_id day_def)
  have 4: "\<forall>t. filter (\<lambda>kf. time kf = t) (sort_key time day) = filter (\<lambda>kf. time kf = t) day"
    by (simp add: sort_key_stable)
  have 5: "sorted (map time day) \<longrightarrow> sort_key time day = day"
    by (simp add: sort_key_id_if_sorted)
  show ?thesis
    unfolding Let_def day_def [symmetric] 3 using 1 2 4 5 by (simp add: day_def)
qed

text \<open>A day that is not sorted by time, as a recipe file may supply it, is reordered by
  \<^verbatim>\<open>updateKeyframeTime\<close> on an id that it does not hold.\<close>

theorem absent_id_updateKeyframeTime_reorders:
  "dayOr (keyframesByDay (updateKeyframeTime
      \<lparr>gridSize = 1,
        keyframesByDay = [[\<lparr>id_kf = 1, name = ''Noon'', time = 720, grid = [inactiveBlack]\<rparr>,
                           \<lparr>id_kf = 2, name = ''Night'', time = 0, grid = [inactiveBlack]\<rparr>]],
        selectedDay = 0, selectedKeyframe = 0, totalDays = 1, absoluteTime = 0\<rparr> 3 60)) 0
    = [\<lparr>id_kf = 2, name = ''Night'', time = 0, grid = [inactiveBlack]\<rparr>,
       \<lparr>id_kf = 1, name = ''Noon'', time = 720, grid = [inactiveBlack]\<rparr>]
   \<and> (3::rat) \<notin> id_kf ` set [\<lparr>id_kf = 1, name = ''Noon'', time = 720, grid = [inactiveBlack]\<rparr>,
                           \<lparr>id_kf = 2, name = ''Night'', time = 0, grid = [inactiveBlack]\<rparr>]"
  by (simp add: updateKeyframeTime_def dayOr_def setDay_def)

theorem absent_id_store_operations_witness:
  "dayOr (keyframesByDay (updateKeyframeTime
      \<lparr>gridSize = 1,
        keyframesByDay = [[\<lparr>id_kf = 1, name = ''Night'', time = 0, grid = [inactiveBlack]\<rparr>,
                           \<lparr>id_kf = 2, name = ''Noon'', time = 720, grid = [inactiveBlack]\<rparr>]],
        selectedDay = 0, selectedKeyframe = 0, totalDays = 1, absoluteTime = 0\<rparr> 3 60)) 0
    = [\<lparr>id_kf = 1, name = ''Night'', time = 0, grid = [inactiveBlack]\<rparr>,
       \<lparr>id_kf = 2, name = ''Noon'', time = 720, grid = [inactiveBlack]\<rparr>]"
  using absent_id_store_operations [of 3 "\<lparr>gridSize = 1,
        keyframesByDay = [[\<lparr>id_kf = 1, name = ''Night'', time = 0, grid = [inactiveBlack]\<rparr>,
                           \<lparr>id_kf = 2, name = ''Noon'', time = 720, grid = [inactiveBlack]\<rparr>]],
        selectedDay = 0, selectedKeyframe = 0, totalDays = 1, absoluteTime = 0\<rparr>" 60 "''x''"]
  by (simp add: Let_def dayOr_def)

section \<open>Properties of the spectral summary\<close>

lemma totals_exact:
  assumes "\<forall>cell \<in> set cs. 0 \<le> r cell \<and> r cell \<le> 255 \<and> 0 \<le> g cell \<and> g cell \<le> 255
              \<and> 0 \<le> b cell \<and> b cell \<le> 255"
      and "0 \<le> x" "0 \<le> y" "0 \<le> z"
      and "x + 255 * int (length cs) < 2 ^ 53"
      and "y + 255 * int (length cs) < 2 ^ 53"
      and "z + 255 * int (length cs) < 2 ^ 53"
  shows "fold (\<lambda>cell (tr, tg, tb).
            (fadd tr (of_int (r cell)), fadd tg (of_int (g cell)), fadd tb (of_int (b cell))))
          cs (of_int x, of_int y, of_int z)
       = (of_int (x + sum_list (map r cs)), of_int (y + sum_list (map g cs)),
          of_int (z + sum_list (map b cs)))"
  using assms
proof (induction cs arbitrary: x y z)
  case Nil
  then show ?case by simp
next
  case (Cons c cs)
  from Cons.prems(1) have c: "0 \<le> r c" "r c \<le> 255" "0 \<le> g c" "g c \<le> 255" "0 \<le> b c" "b c \<le> 255"
    by simp_all
  have s: "fadd (of_int u) (of_int v) = of_int (u + v)" if "\<bar>u + v\<bar> < 2 ^ 53" for u v :: int
    using fl_of_int [OF that] by (simp add: fadd_def)
  have 1: "fadd (of_int x) (of_int (r c)) = of_int (x + r c)"
    using c Cons.prems by (intro s) simp
  have 2: "fadd (of_int y) (of_int (g c)) = of_int (y + g c)"
    using c Cons.prems by (intro s) simp
  have 3: "fadd (of_int z) (of_int (b c)) = of_int (z + b c)"
    using c Cons.prems by (intro s) simp
  have "fold (\<lambda>cell (tr, tg, tb).
            (fadd tr (of_int (r cell)), fadd tg (of_int (g cell)), fadd tb (of_int (b cell))))
          cs (of_int (x + r c), of_int (y + g c), of_int (z + b c))
       = (of_int ((x + r c) + sum_list (map r cs)), of_int ((y + g c) + sum_list (map g cs)),
          of_int ((z + b c) + sum_list (map b cs)))"
    using c Cons.prems by (intro Cons.IH) simp_all
  then show ?case
    by (simp add: 1 2 3 add.assoc)
qed

lemma totals_active:
  assumes "\<forall>cell \<in> set cs. 0 \<le> r cell \<and> r cell \<le> 255 \<and> 0 \<le> g cell \<and> g cell \<le> 255
              \<and> 0 \<le> b cell \<and> b cell \<le> 255"
      and "length cs < 2 ^ 32"
  shows "fold (\<lambda>cell (tr, tg, tb).
            (fadd tr (of_int (r cell)), fadd tg (of_int (g cell)), fadd tb (of_int (b cell))))
          cs (0, 0, 0)
       = (of_int (sum_list (map r cs)), of_int (sum_list (map g cs)), of_int (sum_list (map b cs)))"
proof -
  have "int (length cs) < 2 ^ 32" using assms(2) by (metis of_nat_less_iff of_nat_numeral of_nat_power)
  then have "0 + 255 * int (length cs) < 2 ^ 53" by simp
  from totals_exact [of cs 0 0 0] assms(1) this
  show ?thesis by simp
qed

text \<open>
  Claim C9, as the code has it. The averages of the summary are taken over the active
  cells only: for a grid with at least one active cell, whose active cells have
  components from 0 to 255, each average is the double nearest to the sum of the
  channel over the active cells divided by the number of active cells (an array has
  fewer than \<open>2\<^sup>3\<^sup>2\<close> elements, and the sums are exact). When none of these averages exceeds
  1.3 times each of the other two, the summary is "Full Spectrum" if and only if the
  red average differs from the green average and from the blue average by less than
  25 and the red average is above 200; otherwise it is "Balanced". The green and blue
  averages are not compared with each other or with 200.
\<close>

theorem spectrum_without_dominant_channel:
  assumes "filter active currentGrid \<noteq> []"
      and "\<forall>cell \<in> set (filter active currentGrid).
              0 \<le> r cell \<and> r cell \<le> 255 \<and> 0 \<le> g cell \<and> g cell \<le> 255 \<and> 0 \<le> b cell \<and> b cell \<le> 255"
      and "length currentGrid < 2 ^ 32"
  shows "(let activeCells = filter active currentGrid;
              n = of_nat (length activeCells);
              aR = fdiv (of_int (sum_list (map r activeCells))) n;
              aG = fdiv (of_int (sum_list (map g activeCells))) n;
              aB = fdiv (of_int (sum_list (map b activeCells))) n
          in avgR (liveAnalysis currentGrid) = aR
           \<and> avgG (liveAnalysis currentGrid) = aG
           \<and> avgB (liveAnalysis currentGrid) = aB
           \<and> (\<not> dominates aR aG aB \<and> \<not> dominates aG aR aB \<and> \<not> dominates aB aR aG \<longrightarrow>
                (dominantSpectrum (liveAnalysis currentGrid) = ''Full Spectrum''
                 \<or> dominantSpectrum (liveAnalysis currentGrid) = ''Balanced'')
              \<and> (dominantSpectrum (liveAnalysis currentGrid) = ''Full Spectrum'' \<longleftrightarrow>
                   \<bar>fsub aR aG\<bar> < 25 \<and> \<bar>fsub aR aB\<bar> < 25 \<and> 200 < aR)))"
proof -
  have "length (filter active currentGrid) \<le> length currentGrid" by simp
  with assms(3) have "length (filter active currentGrid) < 2 ^ 32" by linarith
  from totals_active [OF assms(2) this] assms(1)
  show ?thesis
    by (simp add: liveAnalysis_def dominates_def Let_def)
qed

text \<open>One active cell (201, 190, 190): no channel dominates, green and blue are below
  200, and the summary is "Full Spectrum".\<close>

theorem spectrum_full_with_low_green_and_blue:
  "liveAnalysis [\<lparr>r = 201, g = 190, b = 190, active = True\<rparr>]
     = \<lparr>dominantSpectrum = ''Full Spectrum'', avgR = 201, avgG = 190, avgB = 190\<rparr>
   \<and> \<not> dominates 201 190 190 \<and> \<not> dominates 190 201 190
   \<and> \<not> (200 < (190::rat))"
  by code_simp

text \<open>One active cell (250, 250, 250) and one inactive cell (0, 0, 0): the averages are
  250 each and the summary is "Full Spectrum".\<close>

theorem spectrum_without_dominant_channel_witness:
  "liveAnalysis [\<lparr>r = 250, g = 250, b = 250, active = True\<rparr>, \<lparr>r = 0, g = 0, b = 0, active = False\<rparr>]
     = \<lparr>dominantSpectrum = ''Full Spectrum'', avgR = 250, avgG = 250, avgB = 250\<rparr>"
proof -
  define cg where "cg = [\<lparr>r = 250, g = 250, b = 250, active = True\<rparr>, \<lparr>r = 0, g = 0, b = 0, active = False\<rparr>]"
  have d: "\<not> dominates 250 250 250" "\<bar>fsub 250 250\<bar> < 25" "fdiv 250 1 = 250"
    by code_simp+
  have "avgR (liveAnalysis cg) = 250 \<and> avgG (liveAnalysis cg) = 250 \<and> avgB (liveAnalysis cg) = 250
      \<and> dominantSpectrum (liveAnalysis cg) = ''Full Spectrum''"
    using spectrum_without_dominant_channel [of cg] d
    by (simp add: cg_def Let_def)
  then show ?thesis
    unfolding cg_def by (cases "liveAnalysis [\<lparr>r = 250, g = 250, b = 250, active = True\<rparr>, \<lparr>r = 0, g = 0, b = 0, active = False\<rparr>]") simp
qed

section \<open>Properties of the schedule length\<close>





lemma agree_append: "agree h h' (xs @ ys) \<longleftrightarrow> agree h h' xs \<and> agree h h' ys"
  by (auto simp: agree_def)






































end
